theory Spec2Isabelle
  imports Main "HOL-Library.Word"
begin

section \<open>Data model\<close>

text \<open>
  A \<open>Uint8Array\<close> is a fixed-length buffer of bytes. Grid dimensions are non-negative
  integers; coordinates, sizes, decay and heat parameters are integers and may be negative.
  A JavaScript number that may be \<open>NaN\<close> is a \<open>jsnum\<close>; \<open>undefined\<close> (an out-of-range
  read of a typed array) and \<open>null\<close> are \<open>None\<close>.
\<close>

type_synonym u8 = "8 word"
type_synonym Uint8Array = "u8 list"

datatype jsnum = NaN | Num int

datatype PatternName = glider | blinker | lwss | rPentomino

datatype RulePreset = conway | highlife | seeds

record rule_table =
  born :: "bool list"
  survive :: "bool list"

record options =
  rule :: RulePreset
  wrapEdges :: bool

record diff_counts =
  births :: nat
  deaths :: nat

subsection \<open>JavaScript primitives used by the engine\<close>

text \<open>Storing a number into a \<open>Uint8Array\<close> keeps it modulo 256.\<close>

definition ToUint8 :: "int \<Rightarrow> u8" where
  "ToUint8 v = word_of_int v"

text \<open>Addition and multiplication of numbers: \<open>NaN\<close> is absorbing.\<close>

fun jadd :: "jsnum \<Rightarrow> jsnum \<Rightarrow> jsnum" where
  "jadd (Num a) (Num b) = Num (a + b)"
| "jadd _ _ = NaN"

fun jmul :: "jsnum \<Rightarrow> jsnum \<Rightarrow> jsnum" where
  "jmul (Num a) (Num b) = Num (a * b)"
| "jmul _ _ = NaN"

text \<open>The \<open>%\<close> operator: the remainder has the sign of the dividend, and \<open>a % 0\<close> is \<open>NaN\<close>.\<close>

definition js_rem :: "int \<Rightarrow> int \<Rightarrow> jsnum" where
  "js_rem a b = (if b = 0 then NaN else Num (sgn a * (\<bar>a\<bar> mod \<bar>b\<bar>)))"

text \<open>Reading \<open>a[i]\<close>: \<open>undefined\<close> outside the buffer or at a \<open>NaN\<close> index.\<close>

fun getAt :: "Uint8Array \<Rightarrow> jsnum \<Rightarrow> u8 option" where
  "getAt a (Num i) = (if 0 \<le> i \<and> i < int (length a) then Some (a ! nat i) else None)"
| "getAt a NaN = None"

text \<open>Writing \<open>a[i] = v\<close>: ignored outside the buffer or at a \<open>NaN\<close> index.\<close>

fun setAt :: "Uint8Array \<Rightarrow> jsnum \<Rightarrow> u8 \<Rightarrow> Uint8Array" where
  "setAt a (Num i) v = (if 0 \<le> i \<and> i < int (length a) then a[nat i := v] else a)"
| "setAt a NaN v = a"

text \<open>A read used as a number (\<open>undefined\<close> becomes \<open>NaN\<close>) and as a condition.\<close>

fun toNumber :: "u8 option \<Rightarrow> jsnum" where
  "toNumber None = NaN"
| "toNumber (Some w) = Num (uint w)"

fun truthy :: "u8 option \<Rightarrow> bool" where
  "truthy None = False"
| "truthy (Some w) = (w \<noteq> 0)"

text \<open>A lookup \<open>table[n]\<close> used as a condition: \<open>undefined\<close> (falsy) outside the table.\<close>

fun lookup :: "bool list \<Rightarrow> jsnum \<Rightarrow> bool" where
  "lookup t (Num n) = (0 \<le> n \<and> n < int (length t) \<and> t ! nat n)"
| "lookup t NaN = False"

section \<open>Catalogues\<close>

fun PATTERN_OFFSETS :: "PatternName \<Rightarrow> (int \<times> int) list" where
  "PATTERN_OFFSETS glider = [(1, 0), (2, 1), (0, 2), (1, 2), (2, 2)]"
| "PATTERN_OFFSETS blinker = [(-1, 0), (0, 0), (1, 0)]"
| "PATTERN_OFFSETS lwss =
     [(-2, -1), (-1, -1), (0, -1), (1, -1), (-3, 0), (1, 0), (1, 1), (-3, 2), (0, 2)]"
| "PATTERN_OFFSETS rPentomino = [(0, -1), (1, -1), (-1, 0), (0, 0), (0, 1)]"

fun RULE_TABLES :: "RulePreset \<Rightarrow> rule_table" where
  "RULE_TABLES conway =
     \<lparr>born = [False, False, False, True, False, False, False, False, False],
      survive = [False, False, True, True, False, False, False, False, False]\<rparr>"
| "RULE_TABLES highlife =
     \<lparr>born = [False, False, False, True, False, False, True, False, False],
      survive = [False, False, True, True, False, False, False, False, False]\<rparr>"
| "RULE_TABLES seeds =
     \<lparr>born = [False, False, True, False, False, False, False, False, False],
      survive = [False, False, False, False, False, False, False, False, False]\<rparr>"

section \<open>Grid model\<close>

definition indexOf :: "jsnum \<Rightarrow> jsnum \<Rightarrow> nat \<Rightarrow> jsnum" where
  "indexOf x y cols = jadd (jmul y (Num (int cols))) x"

definition createGrid :: "nat \<Rightarrow> nat \<Rightarrow> Uint8Array" where
  "createGrid cols rows = replicate (cols * rows) 0"

section \<open>Neighbour counter\<close>

definition getNeighborCount ::
  "Uint8Array \<Rightarrow> int \<Rightarrow> int \<Rightarrow> nat \<Rightarrow> nat \<Rightarrow> bool \<Rightarrow> jsnum" where
  "getNeighborCount grid x y cols rows wrap =
     fold (\<lambda>dy. fold (\<lambda>dx neighbors.
         if dx = 0 \<and> dy = 0 then neighbors
         else if wrap then
           (let nx = js_rem (x + dx + int cols) (int cols);
                ny = js_rem (y + dy + int rows) (int rows)
            in jadd neighbors (toNumber (getAt grid (indexOf nx ny cols))))
         else
           (let nx = x + dx; ny = y + dy
            in if nx < 0 \<or> ny < 0 \<or> nx \<ge> int cols \<or> ny \<ge> int rows then neighbors
               else jadd neighbors (toNumber (getAt grid (indexOf (Num nx) (Num ny) cols)))))
       [-1, 0, 1])
     [-1, 0, 1] (Num 0)"

section \<open>Rule engine\<close>

definition stepGrid :: "Uint8Array \<Rightarrow> nat \<Rightarrow> nat \<Rightarrow> options \<Rightarrow> Uint8Array" where
  "stepGrid current cols rows opts =
     (let rl = RULE_TABLES (rule opts) in
      fold (\<lambda>y. fold (\<lambda>x next.
          (let idx = indexOf (Num (int x)) (Num (int y)) cols;
               neighbors = getNeighborCount current (int x) (int y) cols rows (wrapEdges opts);
               alive = (getAt current idx = Some 1)
           in setAt next idx
                (if alive then (if lookup (survive rl) neighbors then 1 else 0)
                 else if lookup (born rl) neighbors then 1 else 0)))
        [0..<cols])
      [0..<rows] (createGrid cols rows))"

section \<open>Edit operations\<close>

definition normalizeCoord :: "int \<Rightarrow> nat \<Rightarrow> bool \<Rightarrow> jsnum option" where
  "normalizeCoord v mx wrap =
     (if wrap then Some (js_rem (v + int mx) (int mx))
      else if v < 0 \<or> v \<ge> int mx then None
      else Some (Num v))"

definition applyBrush ::
  "Uint8Array \<Rightarrow> nat \<Rightarrow> nat \<Rightarrow> int \<Rightarrow> int \<Rightarrow> int \<Rightarrow> bool \<Rightarrow> bool \<Rightarrow> Uint8Array" where
  "applyBrush grid cols rows x y sz alive wrap =
     (let radius = max 0 ((sz - 1) div 2) in
      fold (\<lambda>dy. fold (\<lambda>dx next.
          (case (normalizeCoord (x + dx) cols wrap, normalizeCoord (y + dy) rows wrap) of
             (Some nx, Some ny) \<Rightarrow> setAt next (indexOf nx ny cols) (if alive then 1 else 0)
           | _ \<Rightarrow> next))
        [- radius..radius])
      [- radius..radius] grid)"

definition stampPattern ::
  "Uint8Array \<Rightarrow> nat \<Rightarrow> nat \<Rightarrow> PatternName \<Rightarrow> int \<Rightarrow> int \<Rightarrow> bool \<Rightarrow> Uint8Array" where
  "stampPattern grid cols rows name cx cy wrap =
     fold (\<lambda>(px, py) next.
         (case (normalizeCoord (cx + px) cols wrap, normalizeCoord (cy + py) rows wrap) of
            (Some x, Some y) \<Rightarrow> setAt next (indexOf x y cols) 1
          | _ \<Rightarrow> next))
       (PATTERN_OFFSETS name) grid"

text \<open>The call with the anchor and the edge policy left out: grid centre, wrapping.\<close>

definition stampPattern_default :: "Uint8Array \<Rightarrow> nat \<Rightarrow> nat \<Rightarrow> PatternName \<Rightarrow> Uint8Array" where
  "stampPattern_default grid cols rows name =
     stampPattern grid cols rows name (int (cols div 2)) (int (rows div 2)) True"

section \<open>Heat tracker and diff counter\<close>

definition updateHeatMap :: "Uint8Array \<Rightarrow> Uint8Array \<Rightarrow> int \<Rightarrow> int \<Rightarrow> Uint8Array" where
  "updateHeatMap previous currentGrid decay maxHeat =
     fold (\<lambda>i next.
         if truthy (getAt currentGrid (Num (int i))) then setAt next (Num (int i)) (ToUint8 maxHeat)
         else setAt next (Num (int i))
                (if uint (previous ! i) > decay then ToUint8 (uint (previous ! i) - decay) else 0))
       [0..<length previous] (replicate (length previous) 0)"

definition countBirthsAndDeaths :: "Uint8Array \<Rightarrow> Uint8Array \<Rightarrow> diff_counts" where
  "countBirthsAndDeaths previous current =
     fold (\<lambda>i c.
         (let c1 = (if \<not> truthy (getAt previous (Num (int i))) \<and> truthy (getAt current (Num (int i)))
                    then c\<lparr>births := births c + 1\<rparr> else c)
          in if truthy (getAt previous (Num (int i))) \<and> \<not> truthy (getAt current (Num (int i)))
             then c1\<lparr>deaths := deaths c1 + 1\<rparr> else c1))
       [0..<length previous] \<lparr>births = 0, deaths = 0\<rparr>"

section \<open>Reference notions used to state the properties\<close>

text \<open>
  The Moore neighbourhood written out as the specification describes it: the eight offsets
  around a cell, each taken modulo the dimensions on a torus, or dropped when it leaves
  a bounded grid. \<open>live_neighbors\<close> counts the offsets that land on a cell holding 1.
\<close>

definition moore_offsets :: "(int \<times> int) list" where
  "moore_offsets = [(-1, -1), (0, -1), (1, -1), (-1, 0), (1, 0), (-1, 1), (0, 1), (1, 1)]"

definition liveAt :: "Uint8Array \<Rightarrow> nat \<Rightarrow> int \<Rightarrow> int \<Rightarrow> bool" where
  "liveAt grid cols cx cy = (grid ! nat (cy * int cols + cx) = 1)"

definition moore_neighbor_live ::
  "Uint8Array \<Rightarrow> int \<Rightarrow> int \<Rightarrow> nat \<Rightarrow> nat \<Rightarrow> bool \<Rightarrow> int \<times> int \<Rightarrow> bool" where
  "moore_neighbor_live grid x y cols rows wrap d =
     (case d of (dx, dy) \<Rightarrow>
        if wrap then liveAt grid cols ((x + dx) mod int cols) ((y + dy) mod int rows)
        else 0 \<le> x + dx \<and> x + dx < int cols \<and> 0 \<le> y + dy \<and> y + dy < int rows
             \<and> liveAt grid cols (x + dx) (y + dy))"

definition live_neighbors :: "Uint8Array \<Rightarrow> int \<Rightarrow> int \<Rightarrow> nat \<Rightarrow> nat \<Rightarrow> bool \<Rightarrow> nat" where
  "live_neighbors grid x y cols rows wrap =
     length (filter (moore_neighbor_live grid x y cols rows wrap) moore_offsets)"

text \<open>
  The buffer index that an edit operation writes for the coordinate pair \<open>(vx, vy)\<close>: both
  coordinates normalised under the edge policy, then \<open>indexOf\<close>; \<open>None\<close> when either
  coordinate is rejected and the offset is skipped.
\<close>

definition writeTarget :: "nat \<Rightarrow> nat \<Rightarrow> bool \<Rightarrow> int \<Rightarrow> int \<Rightarrow> jsnum option" where
  "writeTarget cols rows wrap vx vy =
     (case (normalizeCoord vx cols wrap, normalizeCoord vy rows wrap) of
        (Some nx, Some ny) \<Rightarrow> Some (indexOf nx ny cols)
      | _ \<Rightarrow> None)"


section \<open>Indexing and buffer lemmas\<close>

lemma idx_lt: "x < cols \<Longrightarrow> y < rows \<Longrightarrow> y * cols + x < cols * (rows::nat)"
proof -
  assume a: "x < cols" "y < rows"
  have "y * cols + x < y * cols + cols" using a by simp
  also have "\<dots> = (Suc y) * cols" by simp
  also have "\<dots> \<le> rows * cols" using a by (intro mult_le_mono1) simp
  finally show ?thesis by (simp add: mult.commute)
qed

lemma idx_inj:
  assumes "x < cols" "x' < (cols::nat)"
  shows "(y * cols + x = y' * cols + x') = (x = x' \<and> y = y')"
proof
  assume e: "y * cols + x = y' * cols + x'"
  have "(y * cols + x) mod cols = x" "(y' * cols + x') mod cols = x'"
    using assms by simp_all
  then have x: "x = x'" using e by simp
  have "(y * cols + x) div cols = y" "(y' * cols + x') div cols = y'"
    using assms by simp_all
  then have "y = y'" using e by simp
  with x show "x = x' \<and> y = y'" by simp
qed simp

lemma indexOf_Num: "indexOf (Num (int x)) (Num (int y)) cols = Num (int (y * cols + x))"
  by (simp add: indexOf_def)

lemma length_setAt [simp]: "length (setAt a j v) = length a"
  by (cases j) simp_all

lemma setAt_nat: "setAt a (Num (int i)) v = (if i < length a then a[i := v] else a)"
  by simp

lemma getAt_nat: "getAt a (Num (int i)) = (if i < length a then Some (a ! i) else None)"
  by simp

lemma setAt_indexOf_nth:
  assumes "length g = cols * rows" "a < cols" "y < rows" "x' < cols" "y' < rows"
  shows "setAt g (indexOf (Num (int a)) (Num (int y)) cols) v ! (y' * cols + x')
         = (if y' = y \<and> x' = a then v else g ! (y' * cols + x'))"
proof -
  have 1: "y * cols + a < length g" using assms idx_lt[of a cols y rows] by simp
  have 2: "y' * cols + x' < length g" using assms idx_lt[of x' cols y' rows] by simp
  have 3: "(y * cols + a = y' * cols + x') = (a = x' \<and> y = y')"
    using assms idx_inj[of a cols x' y y'] by simp
  show ?thesis unfolding indexOf_Num setAt_nat using 1 2 3 by (auto simp: nth_list_update)
qed

lemma row_fold:
  assumes "length g = cols * rows" "y < rows" "\<forall>x\<in>set xs. x < cols"
  shows "length (fold (\<lambda>x next. setAt next (indexOf (Num (int x)) (Num (int y)) cols) (f x)) xs g)
           = cols * rows
       \<and> (\<forall>x' y'. x' < cols \<longrightarrow> y' < rows \<longrightarrow>
            fold (\<lambda>x next. setAt next (indexOf (Num (int x)) (Num (int y)) cols) (f x)) xs g
              ! (y' * cols + x')
            = (if y' = y \<and> x' \<in> set xs then f x' else g ! (y' * cols + x')))"
  using assms
proof (induction xs arbitrary: g)
  case Nil
  then show ?case by simp
next
  case (Cons a xs)
  let ?g = "setAt g (indexOf (Num (int a)) (Num (int y)) cols) (f a)"
  have a: "a < cols" using Cons.prems by simp
  have len: "length ?g = cols * rows" using Cons.prems by simp
  have ih: "length (fold (\<lambda>x next. setAt next (indexOf (Num (int x)) (Num (int y)) cols) (f x)) xs ?g)
           = cols * rows
       \<and> (\<forall>x' y'. x' < cols \<longrightarrow> y' < rows \<longrightarrow>
            fold (\<lambda>x next. setAt next (indexOf (Num (int x)) (Num (int y)) cols) (f x)) xs ?g
              ! (y' * cols + x')
            = (if y' = y \<and> x' \<in> set xs then f x' else ?g ! (y' * cols + x')))"
    using Cons.IH[OF len] Cons.prems by simp
  have g: "\<And>x' y'. x' < cols \<Longrightarrow> y' < rows \<Longrightarrow>
      ?g ! (y' * cols + x') = (if y' = y \<and> x' = a then f a else g ! (y' * cols + x'))"
    using setAt_indexOf_nth[OF Cons.prems(1) a Cons.prems(2)] by simp
  show ?case using ih g by auto
qed


lemma grid_fold:
  assumes "length g = cols * rows" "\<forall>y\<in>set ys. y < rows"
  shows "length (fold (\<lambda>y. fold (\<lambda>x next.
                   setAt next (indexOf (Num (int x)) (Num (int y)) cols) (f x y)) [0..<cols]) ys g)
           = cols * rows
       \<and> (\<forall>x' y'. x' < cols \<longrightarrow> y' < rows \<longrightarrow>
            fold (\<lambda>y. fold (\<lambda>x next.
                   setAt next (indexOf (Num (int x)) (Num (int y)) cols) (f x y)) [0..<cols]) ys g
              ! (y' * cols + x')
            = (if y' \<in> set ys then f x' y' else g ! (y' * cols + x')))"
  using assms
proof (induction ys arbitrary: g)
  case Nil
  then show ?case by simp
next
  case (Cons a ys)
  let ?g = "fold (\<lambda>x next. setAt next (indexOf (Num (int x)) (Num (int a)) cols) (f x a)) [0..<cols] g"
  have a: "a < rows" using Cons.prems by simp
  have row: "length ?g = cols * rows \<and> (\<forall>x' y'. x' < cols \<longrightarrow> y' < rows \<longrightarrow>
      ?g ! (y' * cols + x') = (if y' = a \<and> x' \<in> set [0..<cols] then f x' a else g ! (y' * cols + x')))"
    using row_fold[OF Cons.prems(1) a, of "[0..<cols]" "\<lambda>x. f x a"] by simp
  then have len: "length ?g = cols * rows" by simp
  have ys: "\<forall>y\<in>set ys. y < rows" using Cons.prems by simp
  note ih = Cons.IH[OF len ys]
  show ?case using ih row by auto
qed

lemma stepGrid_fold:
  "stepGrid current cols rows opts =
     fold (\<lambda>y. fold (\<lambda>x next. setAt next (indexOf (Num (int x)) (Num (int y)) cols)
        (if getAt current (indexOf (Num (int x)) (Num (int y)) cols) = Some 1
         then (if lookup (survive (RULE_TABLES (rule opts)))
                    (getNeighborCount current (int x) (int y) cols rows (wrapEdges opts))
               then 1 else 0)
         else if lookup (born (RULE_TABLES (rule opts)))
                    (getNeighborCount current (int x) (int y) cols rows (wrapEdges opts))
              then 1 else 0)) [0..<cols]) [0..<rows] (createGrid cols rows)"
  by (simp add: stepGrid_def Let_def)

lemma length_stepGrid: "length (stepGrid current cols rows opts) = cols * rows"
  unfolding stepGrid_fold
  using grid_fold[of "createGrid cols rows" cols rows "[0..<rows]"]
  by (simp add: createGrid_def)

lemma stepGrid_nth:
  assumes "x < cols" "y < rows"
  shows "stepGrid current cols rows opts ! (y * cols + x) =
        (if getAt current (Num (int (y * cols + x))) = Some 1
         then (if lookup (survive (RULE_TABLES (rule opts)))
                    (getNeighborCount current (int x) (int y) cols rows (wrapEdges opts))
               then 1 else 0)
         else if lookup (born (RULE_TABLES (rule opts)))
                    (getNeighborCount current (int x) (int y) cols rows (wrapEdges opts))
              then 1 else 0)"
proof -
  have "length (createGrid cols rows) = cols * rows" by (simp add: createGrid_def)
  from grid_fold[OF this, of "[0..<rows]"] assms show ?thesis
    unfolding stepGrid_fold indexOf_Num by simp
qed

lemma coord_nat:
  assumes "0 \<le> a" "a < int c"
  obtains a' where "a = int a'" "a' < c"
proof
  show "a = int (nat a)" using assms by simp
  show "nat a < c" using assms by simp
qed

lemma nat_index: "nat (int b * int cols + int a) = b * cols + a"
proof -
  have "int b * int cols + int a = int (b * cols + a)" by simp
  then show ?thesis by (simp only: nat_int)
qed


section \<open>The neighbour counter against the Moore neighbourhood\<close>

lemma js_rem_nonneg: "0 \<le> a \<Longrightarrow> 0 < b \<Longrightarrow> js_rem a b = Num (a mod b)"
  by (cases "a = 0") (simp_all add: js_rem_def)

lemma js_rem_wrap:
  assumes "0 \<le> v + int m" "0 < m"
  shows "js_rem (v + int m) (int m) = Num (v mod int m)"
  using js_rem_nonneg[of "v + int m" "int m"] assms by simp

lemma read_cell:
  assumes "length grid = cols * rows" "set grid \<subseteq> {0, 1}"
    "0 \<le> a" "a < int cols" "0 \<le> b" "b < int rows"
  shows "toNumber (getAt grid (indexOf (Num a) (Num b) cols))
         = Num (if liveAt grid cols a b then 1 else 0)"
proof -
  obtain a' where a: "a = int a'" "a' < cols" using coord_nat[OF assms(3,4)] .
  obtain b' where b: "b = int b'" "b' < rows" using coord_nat[OF assms(5,6)] .
  note ab = a(1) b(1) a(2) b(2)
  have lt: "b' * cols + a' < length grid" using idx_lt[of a' cols b' rows] ab assms(1) by simp
  then have "grid ! (b' * cols + a') \<in> {0, 1}" using assms(2) nth_mem by blast
  moreover have "nat (int b' * int cols + int a') = b' * cols + a'"
    by (rule nat_index)
  ultimately show ?thesis
    unfolding ab indexOf_Num getAt_nat liveAt_def using lt by auto
qed


lemma count_filter_Cons:
  "int (length (filter P (d # ds))) = (if P d then 1 else 0) + int (length (filter P ds))"
  by simp

lemma getNeighborCount_eq:
  assumes len: "length grid = cols * rows" and bin: "set grid \<subseteq> {0, 1}"
    and x: "0 \<le> x" "x < int cols" and y: "0 \<le> y" "y < int rows"
  shows "getNeighborCount grid x y cols rows wrap
         = Num (int (live_neighbors grid x y cols rows wrap))"
proof -
  define body where "body = (\<lambda>dy dx neighbors.
         if dx = 0 \<and> dy = 0 then neighbors
         else if wrap then
           (let nx = js_rem (x + dx + int cols) (int cols);
                ny = js_rem (y + dy + int rows) (int rows)
            in jadd neighbors (toNumber (getAt grid (indexOf nx ny cols))))
         else
           (let nx = x + dx; ny = y + dy
            in if nx < 0 \<or> ny < 0 \<or> nx \<ge> int cols \<or> ny \<ge> int rows then neighbors
               else jadd neighbors (toNumber (getAt grid (indexOf (Num nx) (Num ny) cols)))))"
  have unfold: "getNeighborCount grid x y cols rows wrap
      = body 1 1 (body 1 0 (body 1 (-1) (body 0 1 (body 0 0 (body 0 (-1)
          (body (-1) 1 (body (-1) 0 (body (-1) (-1) (Num 0)))))))))"
  proof -
    have "getNeighborCount grid x y cols rows wrap
        = fold (\<lambda>dy. fold (body dy) [-1, 0, 1]) [-1, 0, 1] (Num 0)"
      unfolding getNeighborCount_def body_def ..
    then show ?thesis by (simp only: fold_simps o_apply)
  qed
  have centre: "\<And>n. body 0 0 n = n" by (simp add: body_def)
  have cpos: "0 < cols" "0 < rows" using x y by auto
  have step: "body dy dx (Num n)
      = Num ((if moore_neighbor_live grid x y cols rows wrap (dx, dy) then 1 else 0) + n)"
    if d: "dx \<in> {-1, 0, 1}" "dy \<in> {-1, 0, 1}" "\<not> (dx = 0 \<and> dy = 0)" for dx dy n
  proof (cases wrap)
    case True
    have rx: "js_rem (x + dx + int cols) (int cols) = Num ((x + dx) mod int cols)"
      using js_rem_wrap[of "x + dx" cols] d x cpos by auto
    have ry: "js_rem (y + dy + int rows) (int rows) = Num ((y + dy) mod int rows)"
      using js_rem_wrap[of "y + dy" rows] d y cpos by auto
    have "toNumber (getAt grid (indexOf (Num ((x + dx) mod int cols)) (Num ((y + dy) mod int rows)) cols))
        = Num (if liveAt grid cols ((x + dx) mod int cols) ((y + dy) mod int rows) then 1 else 0)"
      using cpos by (intro read_cell[OF len bin]) simp_all
    then show ?thesis using True d(3)
      by (simp add: body_def rx ry moore_neighbor_live_def Let_def)
  next
    case False
    show ?thesis
    proof (cases "x + dx < 0 \<or> y + dy < 0 \<or> x + dx \<ge> int cols \<or> y + dy \<ge> int rows")
      case True
      then show ?thesis using False d(3)
        by (auto simp: body_def moore_neighbor_live_def Let_def)
    next
      case inr: False
      then have "toNumber (getAt grid (indexOf (Num (x + dx)) (Num (y + dy)) cols))
        = Num (if liveAt grid cols (x + dx) (y + dy) then 1 else 0)"
        by (intro read_cell[OF len bin]) simp_all
      then show ?thesis using False inr d(3)
        by (simp add: body_def moore_neighbor_live_def Let_def)
    qed
  qed
  show ?thesis
    unfolding unfold centre live_neighbors_def moore_offsets_def count_filter_Cons
    by (simp add: step)
qed

lemma live_neighbors_le: "live_neighbors grid x y cols rows wrap \<le> 8"
  unfolding live_neighbors_def moore_offsets_def
  by (rule order_trans[OF length_filter_le]) simp

lemma liveAt_replicate:
  assumes "0 \<le> a" "a < int cols" "0 \<le> b" "b < int rows"
  shows "\<not> liveAt (replicate (cols * rows) 0) cols a b"
proof -
  obtain a' where a: "a = int a'" "a' < cols" using coord_nat[OF assms(1,2)] .
  obtain b' where b: "b = int b'" "b' < rows" using coord_nat[OF assms(3,4)] .
  have "b' * cols + a' < cols * rows" using idx_lt[OF a(2) b(2)] .
  then show ?thesis unfolding liveAt_def a b nat_index by simp
qed

lemma live_neighbors_zero:
  assumes "x < cols" "y < rows"
  shows "live_neighbors (replicate (cols * rows) 0) (int x) (int y) cols rows wrap = 0"
proof -
  have pc: "0 < int cols" and pr: "0 < int rows" using assms by simp_all
  have "\<not> moore_neighbor_live (replicate (cols * rows) 0) (int x) (int y) cols rows wrap d" for d
  proof (cases d)
    case (Pair dx dy)
    show ?thesis
    proof (cases wrap)
      case True
      have "\<not> liveAt (replicate (cols * rows) 0) cols ((int x + dx) mod int cols)
               ((int y + dy) mod int rows)"
        by (rule liveAt_replicate)
           (rule pos_mod_sign[OF pc] pos_mod_bound[OF pc] pos_mod_sign[OF pr] pos_mod_bound[OF pr])+
      then show ?thesis unfolding Pair moore_neighbor_live_def using True by simp
    next
      case False
      show ?thesis unfolding Pair moore_neighbor_live_def using False liveAt_replicate
        by (auto simp del: of_nat_0_less_iff)
    qed
  qed
  then show ?thesis by (simp add: live_neighbors_def)
qed

section \<open>Cells of the next generation\<close>

lemma stepGrid_nth_idx:
  assumes "i < cols * rows"
  shows "stepGrid current cols rows opts ! i =
        (if getAt current (Num (int i)) = Some 1
         then (if lookup (survive (RULE_TABLES (rule opts)))
                    (getNeighborCount current (int (i mod cols)) (int (i div cols)) cols rows
                       (wrapEdges opts))
               then 1 else 0)
         else if lookup (born (RULE_TABLES (rule opts)))
                    (getNeighborCount current (int (i mod cols)) (int (i div cols)) cols rows
                       (wrapEdges opts))
              then 1 else 0)"
proof -
  have c: "0 < cols" using assms by (cases cols) simp_all
  have x: "i mod cols < cols" using c by simp
  have y: "i div cols < rows" using assms by (simp add: less_mult_imp_div_less mult.commute)
  have "i div cols * cols + i mod cols = i" by simp
  with stepGrid_nth[OF x y, of current opts] show ?thesis by simp
qed

lemma lookup_conway:
  "lookup (born (RULE_TABLES conway)) (Num (int n)) = (n = 3)"
  "lookup (survive (RULE_TABLES conway)) (Num (int n)) = (n = 2 \<or> n = 3)"
proof -
  have "n < 9 \<longrightarrow> n \<in> {0, 1, 2, 3, 4, 5, 6, 7, 8}" by auto
  then show "lookup (born (RULE_TABLES conway)) (Num (int n)) = (n = 3)"
    "lookup (survive (RULE_TABLES conway)) (Num (int n)) = (n = 2 \<or> n = 3)"
    by (cases "n < 9"; auto)+
qed

lemma born_zero: "\<not> lookup (born (RULE_TABLES r)) (Num 0)" "born (RULE_TABLES r) ! 0 = False"
  by (cases r; simp)+

lemma survive_seeds: "\<not> lookup (survive (RULE_TABLES seeds)) n"
proof (cases n)
  case NaN
  then show ?thesis by simp
next
  case (Num k)
  have "0 \<le> k \<and> k < 9 \<longrightarrow> nat k \<in> {0, 1, 2, 3, 4, 5, 6, 7, 8}" by auto
  then show ?thesis using Num by auto
qed


lemma stepGrid_createGrid:
  "stepGrid (createGrid cols rows) cols rows opts = createGrid cols rows"
proof (rule nth_equalityI)
  show "length (stepGrid (createGrid cols rows) cols rows opts) = length (createGrid cols rows)"
    by (simp add: length_stepGrid createGrid_def)
next
  fix i assume "i < length (stepGrid (createGrid cols rows) cols rows opts)"
  then have i: "i < cols * rows" by (simp add: length_stepGrid)
  have c: "0 < cols" using i by (cases cols) simp_all
  have x: "i mod cols < cols" using c by simp
  have y: "i div cols < rows" using i by (simp add: less_mult_imp_div_less mult.commute)
  have n: "getNeighborCount (createGrid cols rows) (int (i mod cols)) (int (i div cols)) cols rows
             (wrapEdges opts) = Num 0"
    unfolding createGrid_def
    using getNeighborCount_eq[of "replicate (cols * rows) 0" cols rows "int (i mod cols)" "int (i div cols)"]
      live_neighbors_zero[OF x y] x y by simp
  show "stepGrid (createGrid cols rows) cols rows opts ! i = createGrid cols rows ! i"
    unfolding stepGrid_nth_idx[OF i] n using i born_zero(1) by (simp add: createGrid_def)
qed

section \<open>Properties of the rule engine\<close>


text \<open>
  Claim C1. On a grid of length \<open>cols * rows\<close> whose entries are 0 or 1, for an in-range
  cell and either edge policy, the neighbour count taken from the input snapshot is the number
  \<open>n\<close> of live Moore neighbours, and under the conway preset the cell of the next generation
  is alive exactly when \<open>n = 3\<close> for a dead cell and when \<open>n = 2\<close> or \<open>n = 3\<close> for a live one.
\<close>

theorem conway_transition:
  assumes "length grid = cols * rows" and "set grid \<subseteq> {0, 1}" and "x < cols" and "y < rows"
  shows "getNeighborCount grid (int x) (int y) cols rows wrap
           = Num (int (live_neighbors grid (int x) (int y) cols rows wrap))
       \<and> getAt grid (indexOf (Num (int x)) (Num (int y)) cols) \<in> {Some 0, Some 1}
       \<and> getAt (stepGrid grid cols rows \<lparr>rule = conway, wrapEdges = wrap\<rparr>)
            (indexOf (Num (int x)) (Num (int y)) cols)
         = Some (if getAt grid (indexOf (Num (int x)) (Num (int y)) cols) = Some 0
                 then (if live_neighbors grid (int x) (int y) cols rows wrap = 3 then 1 else 0)
                 else (if live_neighbors grid (int x) (int y) cols rows wrap = 2
                        \<or> live_neighbors grid (int x) (int y) cols rows wrap = 3 then 1 else 0))"
proof -
  have lt: "y * cols + x < cols * rows" using idx_lt[OF assms(3,4)] .
  have n: "getNeighborCount grid (int x) (int y) cols rows wrap
           = Num (int (live_neighbors grid (int x) (int y) cols rows wrap))"
    using getNeighborCount_eq[OF assms(1,2), of "int x" "int y" wrap] assms(3,4) by simp
  have "grid ! (y * cols + x) \<in> set grid" using lt assms(1) by simp
  then have v: "grid ! (y * cols + x) = 0 \<or> grid ! (y * cols + x) = 1" using assms(2) by auto
  have g: "getAt grid (Num (int (y * cols + x))) = Some (grid ! (y * cols + x))"
    unfolding getAt_nat using lt assms(1) by simp
  have s: "getAt (stepGrid grid cols rows \<lparr>rule = conway, wrapEdges = wrap\<rparr>) (Num (int (y * cols + x)))
      = Some (stepGrid grid cols rows \<lparr>rule = conway, wrapEdges = wrap\<rparr> ! (y * cols + x))"
    unfolding getAt_nat using lt by (simp add: length_stepGrid)
  have lb: "lookup (born (RULE_TABLES conway)) (getNeighborCount grid (int x) (int y) cols rows wrap)
      = (live_neighbors grid (int x) (int y) cols rows wrap = 3)"
    unfolding n by (rule lookup_conway(1))
  have ls: "lookup (survive (RULE_TABLES conway)) (getNeighborCount grid (int x) (int y) cols rows wrap)
      = (live_neighbors grid (int x) (int y) cols rows wrap = 2
         \<or> live_neighbors grid (int x) (int y) cols rows wrap = 3)"
    unfolding n by (rule lookup_conway(2))
  have sel: "rule \<lparr>rule = conway, wrapEdges = wrap\<rparr> = conway"
    "wrapEdges \<lparr>rule = conway, wrapEdges = wrap\<rparr> = wrap" by simp_all
  show ?thesis
    unfolding indexOf_Num s g stepGrid_nth[OF assms(3,4)] sel lb ls
    using v n by auto
qed

theorem conway_transition_witness:
  "length [0, 1, 0, 0, 1, 0, 0, 1, 0 :: u8] = 3 * 3
   \<and> set [0, 1, 0, 0, 1, 0, 0, 1, 0 :: u8] \<subseteq> {0, 1} \<and> (0::nat) < 3 \<and> (1::nat) < 3
   \<and> getNeighborCount [0, 1, 0, 0, 1, 0, 0, 1, 0] 0 1 3 3 False = Num 3
   \<and> getAt (stepGrid [0, 1, 0, 0, 1, 0, 0, 1, 0] 3 3 \<lparr>rule = conway, wrapEdges = False\<rparr>)
        (indexOf (Num 0) (Num 1) 3) = Some 1"
proof -
  have h1: "length [0, 1, 0, 0, 1, 0, 0, 1, 0 :: u8] = 3 * 3" by simp
  have h2: "set [0, 1, 0, 0, 1, 0, 0, 1, 0 :: u8] \<subseteq> {0, 1}" by simp
  have h3: "(0::nat) < 3" and h4: "(1::nat) < 3" by simp_all
  have ln: "live_neighbors [0, 1, 0, 0, 1, 0, 0, 1, 0] 0 1 3 3 False = 3"
    by (simp add: live_neighbors_def moore_offsets_def moore_neighbor_live_def liveAt_def)
  have g: "getAt [0, 1, 0, 0, 1, 0, 0, 1, 0] (indexOf (Num 0) (Num 1) 3) = Some 0"
    by (simp add: indexOf_def)
  show ?thesis
    using conway_transition[OF h1 h2 h3 h4, of False] h1 h2 ln g by simp
qed

text \<open>
  Claim C2. The blinker stamped at the default centre anchor of the all-dead 8 by 8 torus
  comes back unchanged after two conway generations (and is changed after one).
\<close>

theorem blinker_period_two:
  "stepGrid (stepGrid (stampPattern_default (createGrid 8 8) 8 8 blinker) 8 8
       \<lparr>rule = conway, wrapEdges = True\<rparr>) 8 8 \<lparr>rule = conway, wrapEdges = True\<rparr>
   = stampPattern_default (createGrid 8 8) 8 8 blinker
   \<and> stepGrid (stampPattern_default (createGrid 8 8) 8 8 blinker) 8 8
       \<lparr>rule = conway, wrapEdges = True\<rparr>
     \<noteq> stampPattern_default (createGrid 8 8) 8 8 blinker"
  by code_simp

text \<open>
  Claim C3. For each preset \<open>born[0]\<close> is false, a generation of the all-dead grid is the
  all-dead grid for all dimensions and either edge policy, and so is any number of generations.
\<close>

theorem empty_grid_fixpoint:
  "born (RULE_TABLES r) ! 0 = False
   \<and> stepGrid (createGrid cols rows) cols rows \<lparr>rule = r, wrapEdges = w\<rparr> = createGrid cols rows
   \<and> ((\<lambda>g. stepGrid g cols rows \<lparr>rule = r, wrapEdges = w\<rparr>) ^^ k) (createGrid cols rows)
       = createGrid cols rows"
proof -
  have "((\<lambda>g. stepGrid g cols rows \<lparr>rule = r, wrapEdges = w\<rparr>) ^^ k) (createGrid cols rows)
       = createGrid cols rows"
    by (induction k) (simp_all add: stepGrid_createGrid)
  then show ?thesis by (simp add: stepGrid_createGrid born_zero)
qed

text \<open>
  Claim C9. Under the seeds preset a cell holding 1 in the input holds 0 in the next
  generation, so the sets of live cells of consecutive generations are disjoint.
\<close>

theorem seeds_no_survivors:
  "(x < cols \<and> y < rows \<and> getAt grid (indexOf (Num (int x)) (Num (int y)) cols) = Some 1
     \<longrightarrow> getAt (stepGrid grid cols rows \<lparr>rule = seeds, wrapEdges = w\<rparr>)
           (indexOf (Num (int x)) (Num (int y)) cols) = Some 0)
   \<and> {i. getAt grid (Num (int i)) = Some 1}
       \<inter> {i. getAt (stepGrid grid cols rows \<lparr>rule = seeds, wrapEdges = w\<rparr>) (Num (int i)) = Some 1}
     = {}"
proof -
  have cell: "stepGrid grid cols rows \<lparr>rule = seeds, wrapEdges = w\<rparr> ! i = 0"
    if "i < cols * rows" "getAt grid (Num (int i)) = Some 1" for i
    unfolding stepGrid_nth_idx[OF that(1)] using that(2) survive_seeds by simp
  have a: "getAt (stepGrid grid cols rows \<lparr>rule = seeds, wrapEdges = w\<rparr>)
           (indexOf (Num (int x)) (Num (int y)) cols) = Some 0"
    if "x < cols" "y < rows" "getAt grid (indexOf (Num (int x)) (Num (int y)) cols) = Some 1"
  proof -
    have lt: "y * cols + x < cols * rows" using idx_lt[OF that(1,2)] .
    show ?thesis using cell[OF lt] that(3) lt
      unfolding indexOf_Num getAt_nat by (simp add: length_stepGrid)
  qed
  have b: "False" if "getAt grid (Num (int i)) = Some 1"
      "getAt (stepGrid grid cols rows \<lparr>rule = seeds, wrapEdges = w\<rparr>) (Num (int i)) = Some 1" for i
  proof -
    have lt: "i < cols * rows" using that(2) unfolding getAt_nat
      by (simp add: length_stepGrid split: if_splits)
    show False using cell[OF lt that(1)] that(2) lt unfolding getAt_nat
      by (simp add: length_stepGrid)
  qed
  show ?thesis using a b by blast
qed

theorem seeds_no_survivors_witness:
  "(1::nat) < 3 \<and> (1::nat) < 3
   \<and> getAt [0, 1, 0, 0, 1, 0, 0, 1, 0] (indexOf (Num (int 1)) (Num (int 1)) 3) = Some 1
   \<and> getAt (stepGrid [0, 1, 0, 0, 1, 0, 0, 1, 0] 3 3 \<lparr>rule = seeds, wrapEdges = True\<rparr>)
        (indexOf (Num (int 1)) (Num (int 1)) 3) = Some 0"
proof -
  have h: "getAt [0, 1, 0, 0, 1, 0, 0, 1, 0] (indexOf (Num (int 1)) (Num (int 1)) 3) = Some 1"
    by (simp add: indexOf_def)
  show ?thesis
    using seeds_no_survivors[of 1 3 1 3 "[0, 1, 0, 0, 1, 0, 0, 1, 0]" True] h by simp
qed

section \<open>Heat tracker and diff counter: properties\<close>


lemma countBirthsAndDeaths_fold:
  "fold (\<lambda>i c.
         (let c1 = (if \<not> truthy (getAt previous (Num (int i))) \<and> truthy (getAt current (Num (int i)))
                    then c\<lparr>births := births c + 1\<rparr> else c)
          in if truthy (getAt previous (Num (int i))) \<and> \<not> truthy (getAt current (Num (int i)))
             then c1\<lparr>deaths := deaths c1 + 1\<rparr> else c1)) js c
   = \<lparr>births = births c + length (filter (\<lambda>i. \<not> truthy (getAt previous (Num (int i)))
                                              \<and> truthy (getAt current (Num (int i)))) js),
      deaths = deaths c + length (filter (\<lambda>i. truthy (getAt previous (Num (int i)))
                                              \<and> \<not> truthy (getAt current (Num (int i)))) js)\<rparr>"
proof (induction js arbitrary: c)
  case Nil
  show ?case by simp
next
  case (Cons j js)
  show ?case unfolding fold_simps o_apply Cons.IH by (simp add: Let_def)
qed

lemma three_way_count:
  assumes "\<And>x. x \<in> set xs \<Longrightarrow> (P x \<and> \<not> Q x \<and> \<not> R x) \<or> (\<not> P x \<and> Q x \<and> \<not> R x)
                               \<or> (\<not> P x \<and> \<not> Q x \<and> R x)"
  shows "length (filter P xs) + length (filter Q xs) + length (filter R xs) = length xs"
  using assms
proof (induction xs)
  case Nil
  show ?case by simp
next
  case (Cons a xs)
  have "length (filter P xs) + length (filter Q xs) + length (filter R xs) = length xs"
    using Cons by simp
  moreover have "(P a \<and> \<not> Q a \<and> \<not> R a) \<or> (\<not> P a \<and> Q a \<and> \<not> R a) \<or> (\<not> P a \<and> \<not> Q a \<and> R a)"
    using Cons.prems by simp
  ultimately show ?case by auto
qed

lemma truthy_bit:
  assumes "i < length a" "set a \<subseteq> {0, 1}"
  shows "truthy (getAt a (Num (int i))) = (a ! i = 1)"
    and "(\<not> truthy (getAt a (Num (int i)))) = (a ! i = 0)"
proof -
  have "a ! i \<in> set a" using assms(1) by simp
  then have "a ! i = 0 \<or> a ! i = 1" using assms(2) by auto
  then show "truthy (getAt a (Num (int i))) = (a ! i = 1)"
    and "(\<not> truthy (getAt a (Num (int i)))) = (a ! i = 0)"
    unfolding getAt_nat using assms(1) by auto
qed

text \<open>
  Claim C7. For buffers of equal length with entries 0 or 1, births counts the indices going
  from 0 to 1, deaths those going from 1 to 0, and births, deaths and the number of indices
  where the two buffers agree add up to the common length.
\<close>

theorem diff_accounting:
  assumes "length previous = length current"
    and "set previous \<subseteq> {0, 1}" and "set current \<subseteq> {0, 1}"
  shows "births (countBirthsAndDeaths previous current)
           = length (filter (\<lambda>i. previous ! i = 0 \<and> current ! i = 1) [0..<length previous])
       \<and> deaths (countBirthsAndDeaths previous current)
           = length (filter (\<lambda>i. previous ! i = 1 \<and> current ! i = 0) [0..<length previous])
       \<and> births (countBirthsAndDeaths previous current)
           + deaths (countBirthsAndDeaths previous current)
           + length (filter (\<lambda>i. previous ! i = current ! i) [0..<length previous])
           = length previous"
proof -
  let ?n = "length previous"
  let ?B = "\<lambda>i. previous ! i = 0 \<and> current ! i = 1"
  let ?D = "\<lambda>i. previous ! i = 1 \<and> current ! i = 0"
  let ?E = "\<lambda>i. previous ! i = current ! i"
  have b: "filter (\<lambda>i. \<not> truthy (getAt previous (Num (int i))) \<and> truthy (getAt current (Num (int i))))
             [0..<?n] = filter ?B [0..<?n]"
  proof (rule filter_cong[OF refl])
    fix i assume "i \<in> set [0..<?n]"
    then have i: "i < length previous" "i < length current" using assms(1) by simp_all
    show "(\<not> truthy (getAt previous (Num (int i))) \<and> truthy (getAt current (Num (int i)))) = ?B i"
      by (simp only: truthy_bit(2)[OF i(1) assms(2)] truthy_bit(1)[OF i(2) assms(3)])
  qed
  have d: "filter (\<lambda>i. truthy (getAt previous (Num (int i))) \<and> \<not> truthy (getAt current (Num (int i))))
             [0..<?n] = filter ?D [0..<?n]"
  proof (rule filter_cong[OF refl])
    fix i assume "i \<in> set [0..<?n]"
    then have i: "i < length previous" "i < length current" using assms(1) by simp_all
    show "(truthy (getAt previous (Num (int i))) \<and> \<not> truthy (getAt current (Num (int i)))) = ?D i"
      by (simp only: truthy_bit(1)[OF i(1) assms(2)] truthy_bit(2)[OF i(2) assms(3)])
  qed
  have births: "births (countBirthsAndDeaths previous current) = length (filter ?B [0..<?n])"
    unfolding countBirthsAndDeaths_def countBirthsAndDeaths_fold b by simp
  have deaths: "deaths (countBirthsAndDeaths previous current) = length (filter ?D [0..<?n])"
    unfolding countBirthsAndDeaths_def countBirthsAndDeaths_fold d by simp
  have "length (filter ?B [0..<?n]) + length (filter ?D [0..<?n]) + length (filter ?E [0..<?n])
        = length [0..<?n]"
  proof (rule three_way_count)
    fix i assume "i \<in> set [0..<?n]"
    then have i: "i < length previous" "i < length current" using assms(1) by simp_all
    have "previous ! i \<in> set previous" "current ! i \<in> set current" using i by simp_all
    then have "previous ! i = 0 \<or> previous ! i = 1" "current ! i = 0 \<or> current ! i = 1"
      using assms(2,3) by auto
    then show "(?B i \<and> \<not> ?D i \<and> \<not> ?E i) \<or> (\<not> ?B i \<and> ?D i \<and> \<not> ?E i) \<or> (\<not> ?B i \<and> \<not> ?D i \<and> ?E i)"
      by auto
  qed
  then show ?thesis using births deaths by simp
qed

theorem diff_accounting_witness:
  "length [0, 1, 1, 0 :: u8] = length [1, 0, 1, 0 :: u8]
   \<and> set [0, 1, 1, 0 :: u8] \<subseteq> {0, 1} \<and> set [1, 0, 1, 0 :: u8] \<subseteq> {0, 1}
   \<and> births (countBirthsAndDeaths [0, 1, 1, 0] [1, 0, 1, 0]) = 1
   \<and> deaths (countBirthsAndDeaths [0, 1, 1, 0] [1, 0, 1, 0]) = 1
   \<and> births (countBirthsAndDeaths [0, 1, 1, 0] [1, 0, 1, 0])
       + deaths (countBirthsAndDeaths [0, 1, 1, 0] [1, 0, 1, 0]) + 2 = 4"
proof -
  have h1: "length [0, 1, 1, 0 :: u8] = length [1, 0, 1, 0 :: u8]" by simp
  have h2: "set [0, 1, 1, 0 :: u8] \<subseteq> {0, 1}" and h3: "set [1, 0, 1, 0 :: u8] \<subseteq> {0, 1}"
    by simp_all
  have u: "[0..<length [0, 1, 1, 0 :: u8]] = [0, 1, 2, 3]" by (simp add: upt_rec)
  show ?thesis using diff_accounting[OF h1 h2 h3] unfolding u by simp
qed


lemma uint_ToUint8: "0 \<le> v \<Longrightarrow> v \<le> 255 \<Longrightarrow> uint (ToUint8 v) = v"
  by (simp add: ToUint8_def uint_word_of_int take_bit_eq_mod)

lemma write_fold:
  "length (fold (\<lambda>i next. setAt next (Num (int i)) (f i)) js g) = length g
   \<and> (\<forall>k. fold (\<lambda>i next. setAt next (Num (int i)) (f i)) js g ! k
          = (if k \<in> set js \<and> k < length g then f k else g ! k))"
proof (induction js arbitrary: g)
  case Nil
  show ?case by simp
next
  case (Cons j js)
  have step: "setAt g (Num (int j)) (f j) ! k = (if k = j \<and> k < length g then f k else g ! k)" for k
    unfolding setAt_nat by (auto simp: nth_list_update)
  show ?case unfolding fold_simps o_apply using Cons.IH[of "setAt g (Num (int j)) (f j)"] step
    by auto
qed

lemma updateHeatMap_fold:
  "updateHeatMap previous currentGrid decay maxHeat
   = fold (\<lambda>i next. setAt next (Num (int i))
        (if truthy (getAt currentGrid (Num (int i))) then ToUint8 maxHeat
         else if uint (previous ! i) > decay then ToUint8 (uint (previous ! i) - decay) else 0))
       [0..<length previous] (replicate (length previous) 0)"
proof -
  have "(\<lambda>i next. if truthy (getAt currentGrid (Num (int i))) then setAt next (Num (int i)) (ToUint8 maxHeat)
         else setAt next (Num (int i))
                (if uint (previous ! i) > decay then ToUint8 (uint (previous ! i) - decay) else 0))
      = (\<lambda>i next. setAt next (Num (int i))
        (if truthy (getAt currentGrid (Num (int i))) then ToUint8 maxHeat
         else if uint (previous ! i) > decay then ToUint8 (uint (previous ! i) - decay) else 0))"
    by (intro ext) (simp del: setAt.simps getAt.simps)
  then show ?thesis unfolding updateHeatMap_def by (simp only:)
qed

lemma length_updateHeatMap:
  "length (updateHeatMap previous currentGrid decay maxHeat) = length previous"
  unfolding updateHeatMap_fold using write_fold[of _ "[0..<length previous]" "replicate (length previous) 0"]
  by simp

lemma updateHeatMap_nth:
  assumes "i < length previous"
  shows "updateHeatMap previous currentGrid decay maxHeat ! i
         = (if truthy (getAt currentGrid (Num (int i))) then ToUint8 maxHeat
            else if uint (previous ! i) > decay then ToUint8 (uint (previous ! i) - decay) else 0)"
  unfolding updateHeatMap_fold
  using write_fold[of _ "[0..<length previous]" "replicate (length previous) 0"] assms
  by simp

lemma heat_dead_step:
  assumes "i < length previous" "\<not> truthy (getAt currentGrid (Num (int i)))" "0 \<le> decay"
  shows "uint (updateHeatMap previous currentGrid decay maxHeat ! i)
         = max (uint (previous ! i) - decay) 0"
proof (cases "uint (previous ! i) > decay")
  case True
  have "uint (previous ! i) \<le> 255" using uint_lt2p[of "previous ! i"] by simp
  then have "uint (ToUint8 (uint (previous ! i) - decay)) = uint (previous ! i) - decay"
    using True assms(3) by (intro uint_ToUint8) simp_all
  then show ?thesis unfolding updateHeatMap_nth[OF assms(1)] using assms(2) True by simp
next
  case False
  then show ?thesis unfolding updateHeatMap_nth[OF assms(1)] using assms(2) by simp
qed

lemma heat_dead_run:
  assumes "0 \<le> decay"
    and "\<forall>g \<in> set gs. \<not> truthy (getAt g (Num (int i)))"
    and "i < length heat"
  shows "length (fold (\<lambda>g h. updateHeatMap h g decay maxHeat) gs heat) = length heat
       \<and> uint (fold (\<lambda>g h. updateHeatMap h g decay maxHeat) gs heat ! i)
         = max (uint (heat ! i) - int (length gs) * decay) 0"
  using assms(2,3)
proof (induction gs arbitrary: heat)
  case Nil
  show ?case by simp
next
  case (Cons g gs)
  let ?h = "updateHeatMap heat g decay maxHeat"
  have len: "i < length ?h" using Cons.prems(2) by (simp add: length_updateHeatMap)
  have dead: "\<not> truthy (getAt g (Num (int i)))" using Cons.prems(1) by simp
  have one: "uint (?h ! i) = max (uint (heat ! i) - decay) 0"
    using heat_dead_step[OF Cons.prems(2) dead assms(1)] .
  have rest: "\<forall>g \<in> set gs. \<not> truthy (getAt g (Num (int i)))" using Cons.prems(1) by simp
  have ih: "length (fold (\<lambda>g h. updateHeatMap h g decay maxHeat) gs ?h) = length ?h
       \<and> uint (fold (\<lambda>g h. updateHeatMap h g decay maxHeat) gs ?h ! i)
         = max (uint (?h ! i) - int (length gs) * decay) 0"
    using Cons.IH[OF rest len] .
  have nonneg: "0 \<le> int (length gs) * decay" using assms(1) by simp
  have arith: "max (max (uint (heat ! i) - decay) 0 - int (length gs) * decay) 0
      = max (uint (heat ! i) - (1 + int (length gs)) * decay) 0"
    using nonneg by (simp add: algebra_simps max_def)
  show ?case unfolding fold_simps o_apply using ih one arith
    by (simp add: length_updateHeatMap)
qed


text \<open>
  Claim C6 fails as stated: heat is stored in a byte buffer, so a live cell with
  \<open>maxHeat = 300\<close> gets heat 44, and with a negative decay a dead cell at \<open>maxHeat\<close> climbs
  above \<open>maxHeat\<close>.
\<close>

theorem heat_update_counterexample:
  "truthy (getAt [1] (Num 0)) \<and> uint (updateHeatMap [0] [1] 1 300 ! 0) \<noteq> 300
   \<and> \<not> truthy (getAt [0] (Num 0)) \<and> uint ([10 :: u8] ! 0) \<le> 10
   \<and> \<not> uint (updateHeatMap [10] [0] (- 1) 10 ! 0) \<le> 10"
  by (simp add: updateHeatMap_def ToUint8_def)

text \<open>
  Claim C6, amended. For \<open>0 \<le> decay\<close> and \<open>0 \<le> maxHeat \<le> 255\<close>: a live cell gets heat
  \<open>maxHeat\<close>, a dead one \<open>max (previous - decay) 0\<close>; the heat is never negative and stays at
  most \<open>maxHeat\<close> when the previous heat was; a cell at \<open>maxHeat\<close> that stays dead for \<open>m\<close>
  updates has heat \<open>max (maxHeat - m * decay) 0\<close>.
\<close>

theorem heat_update:
  assumes "length previous = length currentGrid" and "i < length previous"
    and "0 \<le> decay" and "0 \<le> maxHeat" and "maxHeat \<le> 255"
  shows "uint (updateHeatMap previous currentGrid decay maxHeat ! i)
           = (if truthy (getAt currentGrid (Num (int i))) then maxHeat
              else max (uint (previous ! i) - decay) 0)
       \<and> 0 \<le> uint (updateHeatMap previous currentGrid decay maxHeat ! i)
       \<and> (uint (previous ! i) \<le> maxHeat
            \<longrightarrow> uint (updateHeatMap previous currentGrid decay maxHeat ! i) \<le> maxHeat)
       \<and> (uint (previous ! i) = maxHeat \<and> (\<forall>g \<in> set gs. \<not> truthy (getAt g (Num (int i))))
            \<longrightarrow> uint (fold (\<lambda>g h. updateHeatMap h g decay maxHeat) gs previous ! i)
                = max (maxHeat - int (length gs) * decay) 0)"
proof -
  let ?u = "uint (updateHeatMap previous currentGrid decay maxHeat ! i)"
  have val: "?u = (if truthy (getAt currentGrid (Num (int i))) then maxHeat
              else max (uint (previous ! i) - decay) 0)"
  proof (cases "truthy (getAt currentGrid (Num (int i)))")
    case True
    then show ?thesis unfolding updateHeatMap_nth[OF assms(2)]
      using uint_ToUint8[OF assms(4,5)] by simp
  next
    case False
    then show ?thesis using heat_dead_step[OF assms(2) False assms(3)] by simp
  qed
  have le: "?u \<le> maxHeat" if "uint (previous ! i) \<le> maxHeat"
    unfolding val using that assms(3,4) by auto
  have run: "uint (fold (\<lambda>g h. updateHeatMap h g decay maxHeat) gs previous ! i)
                = max (maxHeat - int (length gs) * decay) 0"
    if "uint (previous ! i) = maxHeat" "\<forall>g \<in> set gs. \<not> truthy (getAt g (Num (int i)))"
    using heat_dead_run[OF assms(3) that(2) assms(2), of maxHeat] that(1) by simp
  have nn: "0 \<le> ?u" by simp
  from val nn le run show ?thesis by blast
qed

theorem heat_update_witness:
  "length [10, 3 :: u8] = length [0, 1 :: u8] \<and> (0::nat) < length [10, 3 :: u8]
   \<and> (0::int) \<le> 4 \<and> (0::int) \<le> 10 \<and> (10::int) \<le> 255
   \<and> uint ([10, 3 :: u8] ! 0) = 10
   \<and> \<not> truthy (getAt [0, 1] (Num (int 0))) \<and> \<not> truthy (getAt [0, 0] (Num (int 0)))
   \<and> uint (updateHeatMap [10, 3] [0, 1] 4 10 ! 0) = 6
   \<and> uint (fold (\<lambda>g h. updateHeatMap h g 4 10) [[0, 1], [0, 0], [0, 1]] [10, 3] ! 0) = 0"
proof -
  have h1: "length [10, 3 :: u8] = length [0, 1 :: u8]" and h2: "(0::nat) < length [10, 3 :: u8]"
    and h3: "(0::int) \<le> 4" and h4: "(0::int) \<le> 10" and h5: "(10::int) \<le> 255"
    by simp_all
  show ?thesis
    using heat_update[OF h1 h2 h3 h4 h5, of "[[0, 1], [0, 0], [0, 1]]"] by simp
qed

section \<open>Edit operations: properties\<close>


lemma setAt_nth:
  "setAt g j v ! k = (if k < length g \<and> j = Num (int k) then v else g ! k)"
proof (cases j)
  case NaN
  then show ?thesis by simp
next
  case (Num i)
  show ?thesis
  proof (cases "0 \<le> i \<and> i < int (length g)")
    case True
    then have lt: "nat i < length g" by (simp add: nat_less_iff)
    have eq: "(i = int k) = (k = nat i)" using True by auto
    have "setAt g j v ! k = g[nat i := v] ! k" using Num True by simp
    also have "\<dots> = (if k = nat i then v else g ! k)"
      using lt by (simp add: nth_list_update)
    also have "\<dots> = (if k < length g \<and> j = Num (int k) then v else g ! k)"
      using lt eq Num by auto
    finally show ?thesis .
  next
    case False
    then have e: "setAt g j v = g" using Num by auto
    have n: "\<not> (k < length g \<and> j = Num (int k))" using False Num by auto
    show ?thesis unfolding e if_not_P[OF n] ..
  qed
qed

lemma paint_fold:
  "length (fold (\<lambda>a next. case f a of Some j \<Rightarrow> setAt next j v | None \<Rightarrow> next) as g) = length g
   \<and> (\<forall>k. fold (\<lambda>a next. case f a of Some j \<Rightarrow> setAt next j v | None \<Rightarrow> next) as g ! k
          = (if k < length g \<and> Some (Num (int k)) \<in> f ` set as then v else g ! k))"
proof (induction as arbitrary: g)
  case Nil
  show ?case by simp
next
  case (Cons a as)
  define g' where "g' = (case f a of Some j \<Rightarrow> setAt g j v | None \<Rightarrow> g)"
  have len: "length g' = length g" unfolding g'_def by (cases "f a") simp_all
  have step: "g' ! k = (if k < length g \<and> f a = Some (Num (int k)) then v else g ! k)" for k
    unfolding g'_def by (cases "f a") (simp_all add: setAt_nth del: setAt.simps)
  have unf: "fold (\<lambda>a next. case f a of Some j \<Rightarrow> setAt next j v | None \<Rightarrow> next) (a # as) g
      = fold (\<lambda>a next. case f a of Some j \<Rightarrow> setAt next j v | None \<Rightarrow> next) as g'"
    unfolding g'_def by simp
  note ih = Cons.IH[of g']
  show ?case
  proof (intro conjI allI)
    show "length (fold (\<lambda>a next. case f a of Some j \<Rightarrow> setAt next j v | None \<Rightarrow> next) (a # as) g)
        = length g"
      unfolding unf using ih len by simp
  next
    fix k
    have "fold (\<lambda>a next. case f a of Some j \<Rightarrow> setAt next j v | None \<Rightarrow> next) (a # as) g ! k
        = (if k < length g' \<and> Some (Num (int k)) \<in> f ` set as then v else g' ! k)"
      unfolding unf using ih by blast
    also have "\<dots> = (if k < length g \<and> Some (Num (int k)) \<in> f ` set (a # as) then v else g ! k)"
      unfolding len step by (cases "f a = Some (Num (int k))") auto
    finally show "fold (\<lambda>a next. case f a of Some j \<Rightarrow> setAt next j v | None \<Rightarrow> next) (a # as) g ! k
        = (if k < length g \<and> Some (Num (int k)) \<in> f ` set (a # as) then v else g ! k)" .
  qed
qed

lemma fold_nested:
  "fold (\<lambda>b. fold (\<lambda>a. h a b) as) bs g
   = fold (\<lambda>(a, b). h a b) (concat (map (\<lambda>b. map (\<lambda>a. (a, b)) as) bs)) g"
proof (induction bs arbitrary: g)
  case Nil
  show ?case by simp
next
  case (Cons b bs)
  have "fold (\<lambda>(a, b). h a b) (map (\<lambda>a. (a, b)) as) g = fold (\<lambda>a. h a b) as g"
    by (simp add: fold_map o_def)
  then show ?case using Cons.IH by simp
qed

lemma mem_square:
  "((a, b) \<in> set (concat (map (\<lambda>b. map (\<lambda>a. (a, b)) as) bs))) = (a \<in> set as \<and> b \<in> set bs)"
  by auto

lemma mem_upto_abs: "(d \<in> set [- r..r]) = (\<bar>d\<bar> \<le> (r::int))"
  by (auto simp: abs_le_iff)



lemma applyBrush_paint:
  "applyBrush grid cols rows x y sz alive wrap
   = fold (\<lambda>d next. case (case d of (dx, dy) \<Rightarrow> writeTarget cols rows wrap (x + dx) (y + dy)) of
                       Some j \<Rightarrow> setAt next j (if alive then 1 else 0) | None \<Rightarrow> next)
       (concat (map (\<lambda>dy. map (\<lambda>dx. (dx, dy)) [- max 0 ((sz - 1) div 2)..max 0 ((sz - 1) div 2)])
                  [- max 0 ((sz - 1) div 2)..max 0 ((sz - 1) div 2)])) grid"
proof -
  have "(\<lambda>(dx, dy) next.
          (case (normalizeCoord (x + dx) cols wrap, normalizeCoord (y + dy) rows wrap) of
             (Some nx, Some ny) \<Rightarrow> setAt next (indexOf nx ny cols) (if alive then 1 else 0)
           | _ \<Rightarrow> next))
       = (\<lambda>d next. case (case d of (dx, dy) \<Rightarrow> writeTarget cols rows wrap (x + dx) (y + dy)) of
                       Some j \<Rightarrow> setAt next j (if alive then 1 else 0) | None \<Rightarrow> next)"
    by (intro ext) (simp add: writeTarget_def split: prod.split option.split)
  then show ?thesis unfolding applyBrush_def Let_def fold_nested by (simp only:)
qed

lemma applyBrush_nth:
  "length (applyBrush grid cols rows x y sz alive wrap) = length grid"
  "applyBrush grid cols rows x y sz alive wrap ! k
     = (if k < length grid
          \<and> (\<exists>dx dy. \<bar>dx\<bar> \<le> max 0 ((sz - 1) div 2) \<and> \<bar>dy\<bar> \<le> max 0 ((sz - 1) div 2)
                \<and> writeTarget cols rows wrap (x + dx) (y + dy) = Some (Num (int k)))
        then (if alive then 1 else 0) else grid ! k)"
proof -
  let ?r = "max 0 ((sz - 1) div 2)"
  let ?ds = "concat (map (\<lambda>dy. map (\<lambda>dx. (dx, dy)) [- ?r..?r]) [- ?r..?r])"
  let ?f = "\<lambda>d. case d of (dx, dy) \<Rightarrow> writeTarget cols rows wrap (x + dx) (y + dy)"
  note pf = paint_fold[where f = ?f and v = "if alive then 1 else 0" and as = ?ds and g = grid]
  show "length (applyBrush grid cols rows x y sz alive wrap) = length grid"
    unfolding applyBrush_paint using pf by simp
  have mem: "(Some (Num (int k)) \<in> ?f ` set ?ds)
      = (\<exists>dx dy. \<bar>dx\<bar> \<le> ?r \<and> \<bar>dy\<bar> \<le> ?r
           \<and> writeTarget cols rows wrap (x + dx) (y + dy) = Some (Num (int k)))"
  proof
    assume "Some (Num (int k)) \<in> ?f ` set ?ds"
    then obtain d where dd: "d \<in> set ?ds" "?f d = Some (Num (int k))" by force
    obtain dx dy where "d = (dx, dy)" by (cases d)
    with dd have m: "(dx, dy) \<in> set ?ds" and t: "?f (dx, dy) = Some (Num (int k))" by simp_all
    have "\<bar>dx\<bar> \<le> ?r" "\<bar>dy\<bar> \<le> ?r" using m unfolding mem_square mem_upto_abs by simp_all
    moreover have "writeTarget cols rows wrap (x + dx) (y + dy) = Some (Num (int k))"
      using t by simp
    ultimately show "\<exists>dx dy. \<bar>dx\<bar> \<le> ?r \<and> \<bar>dy\<bar> \<le> ?r
           \<and> writeTarget cols rows wrap (x + dx) (y + dy) = Some (Num (int k))"
      by blast
  next
    assume "\<exists>dx dy. \<bar>dx\<bar> \<le> ?r \<and> \<bar>dy\<bar> \<le> ?r
           \<and> writeTarget cols rows wrap (x + dx) (y + dy) = Some (Num (int k))"
    then obtain dx dy where d: "\<bar>dx\<bar> \<le> ?r" "\<bar>dy\<bar> \<le> ?r"
        "writeTarget cols rows wrap (x + dx) (y + dy) = Some (Num (int k))" by blast
    have m: "(dx, dy) \<in> set ?ds" using d(1,2) unfolding mem_square mem_upto_abs by simp
    have t: "Some (Num (int k)) = ?f (dx, dy)" using d(3) by simp
    show "Some (Num (int k)) \<in> ?f ` set ?ds" using t m by (rule image_eqI)
  qed
  show "applyBrush grid cols rows x y sz alive wrap ! k
     = (if k < length grid
          \<and> (\<exists>dx dy. \<bar>dx\<bar> \<le> ?r \<and> \<bar>dy\<bar> \<le> ?r
                \<and> writeTarget cols rows wrap (x + dx) (y + dy) = Some (Num (int k)))
        then (if alive then 1 else 0) else grid ! k)"
    unfolding applyBrush_paint mem[symmetric] using pf by simp
qed




lemma int_index:
  assumes "0 \<le> a" "a < int cols" "0 \<le> b" "b < int rows"
  obtains k where "b * int cols + a = int k" "k < cols * rows" "nat (b * int cols + a) = k"
proof -
  obtain a' where a': "a = int a'" "a' < cols" using coord_nat[OF assms(1,2)] .
  obtain b' where b': "b = int b'" "b' < rows" using coord_nat[OF assms(3,4)] .
  show thesis
  proof
    show "b * int cols + a = int (b' * cols + a')" unfolding a'(1) b'(1) by simp
    show "b' * cols + a' < cols * rows" using idx_lt[OF a'(2) b'(2)] .
    show "nat (b * int cols + a) = b' * cols + a'" unfolding a'(1) b'(1) by (rule nat_index)
  qed
qed

lemma int_index_inj:
  assumes "0 \<le> a" "a < int cols" "0 \<le> a'" "a' < int cols" "0 \<le> b" "0 \<le> b'"
  shows "(b * int cols + a = b' * int cols + a') = (a = a' \<and> b = b')"
proof -
  obtain m where m: "a = int m" "m < cols" using coord_nat[OF assms(1,2)] .
  obtain m' where m': "a' = int m'" "m' < cols" using coord_nat[OF assms(3,4)] .
  have "b = int (nat b)" "b' = int (nat b')" using assms(5,6) by simp_all
  then obtain n n' where n: "b = int n" "b' = int n'" by blast
  have "(int n * int cols + int m = int n' * int cols + int m') = (n * cols + m = n' * cols + m')"
    by (metis of_nat_add of_nat_mult of_nat_eq_iff)
  then show ?thesis unfolding m(1) m'(1) n using idx_inj[OF m(2) m'(2), of n n'] by simp
qed

lemma writeTarget_bounded:
  "writeTarget cols rows False vx vy
   = (if 0 \<le> vx \<and> vx < int cols \<and> 0 \<le> vy \<and> vy < int rows
      then Some (Num (vy * int cols + vx)) else None)"
  by (auto simp: writeTarget_def normalizeCoord_def indexOf_def)

lemma writeTarget_wrap:
  assumes "0 \<le> vx + int cols" "0 \<le> vy + int rows" "0 < cols" "0 < rows"
  shows "writeTarget cols rows True vx vy
         = Some (Num ((vy mod int rows) * int cols + vx mod int cols))"
  unfolding writeTarget_def normalizeCoord_def
  using js_rem_wrap[OF assms(1,3)] js_rem_wrap[OF assms(2,4)]
  by (simp add: indexOf_def)

text \<open>
  The bounded brush clips cell by cell: every offset of the square that lands inside the grid
  is painted, and a cell of the grid outside the square keeps its value.
\<close>

lemma brush_bounded:
  assumes len: "length grid = cols * rows"
  shows "\<bar>dx\<bar> \<le> max 0 ((sz - 1) div 2) \<Longrightarrow> \<bar>dy\<bar> \<le> max 0 ((sz - 1) div 2)
          \<Longrightarrow> 0 \<le> x + dx \<Longrightarrow> x + dx < int cols \<Longrightarrow> 0 \<le> y + dy \<Longrightarrow> y + dy < int rows
          \<Longrightarrow> applyBrush grid cols rows x y sz alive False ! nat ((y + dy) * int cols + (x + dx))
              = (if alive then 1 else 0)"
    and "0 \<le> a \<Longrightarrow> a < int cols \<Longrightarrow> 0 \<le> b \<Longrightarrow> b < int rows
          \<Longrightarrow> \<not> (\<bar>a - x\<bar> \<le> max 0 ((sz - 1) div 2) \<and> \<bar>b - y\<bar> \<le> max 0 ((sz - 1) div 2))
          \<Longrightarrow> applyBrush grid cols rows x y sz alive False ! nat (b * int cols + a)
              = grid ! nat (b * int cols + a)"
proof -
  let ?r = "max 0 ((sz - 1) div 2)"
  {
    assume d: "\<bar>dx\<bar> \<le> ?r" "\<bar>dy\<bar> \<le> ?r"
      and inr: "0 \<le> x + dx" "x + dx < int cols" "0 \<le> y + dy" "y + dy < int rows"
    obtain k where k: "(y + dy) * int cols + (x + dx) = int k" "k < cols * rows"
        "nat ((y + dy) * int cols + (x + dx)) = k"
      using int_index[OF inr] .
    have "writeTarget cols rows False (x + dx) (y + dy) = Some (Num (int k))"
      unfolding writeTarget_bounded using inr k(1) by simp
    then have "\<exists>dx dy. \<bar>dx\<bar> \<le> ?r \<and> \<bar>dy\<bar> \<le> ?r
        \<and> writeTarget cols rows False (x + dx) (y + dy) = Some (Num (int k))"
      using d by blast
    then show "applyBrush grid cols rows x y sz alive False ! nat ((y + dy) * int cols + (x + dx))
              = (if alive then 1 else 0)"
      unfolding k(3) applyBrush_nth(2) using k(2) len by simp
  }
  {
    assume c: "0 \<le> a" "a < int cols" "0 \<le> b" "b < int rows"
      and out: "\<not> (\<bar>a - x\<bar> \<le> ?r \<and> \<bar>b - y\<bar> \<le> ?r)"
    obtain k where k: "b * int cols + a = int k" "k < cols * rows" "nat (b * int cols + a) = k"
      using int_index[OF c] .
    have "\<not> (\<exists>dx dy. \<bar>dx\<bar> \<le> ?r \<and> \<bar>dy\<bar> \<le> ?r
        \<and> writeTarget cols rows False (x + dx) (y + dy) = Some (Num (int k)))"
    proof
      assume "\<exists>dx dy. \<bar>dx\<bar> \<le> ?r \<and> \<bar>dy\<bar> \<le> ?r
        \<and> writeTarget cols rows False (x + dx) (y + dy) = Some (Num (int k))"
      then obtain dx dy where d: "\<bar>dx\<bar> \<le> ?r" "\<bar>dy\<bar> \<le> ?r"
        "writeTarget cols rows False (x + dx) (y + dy) = Some (Num (int k))" by blast
      have inr: "0 \<le> x + dx" "x + dx < int cols" "0 \<le> y + dy" "y + dy < int rows"
        and e: "(y + dy) * int cols + (x + dx) = int k"
        using d(3) unfolding writeTarget_bounded by (simp_all split: if_splits)
      have "b * int cols + a = (y + dy) * int cols + (x + dx)" using e k(1) by simp
      then have "a = x + dx \<and> b = y + dy"
        using int_index_inj[OF c(1,2) inr(1,2) c(3) inr(3)] by simp
      then show False using out d(1,2) by simp
    qed
    then show "applyBrush grid cols rows x y sz alive False ! nat (b * int cols + a)
              = grid ! nat (b * int cols + a)"
      unfolding k(3) applyBrush_nth(2) by (simp only: simp_thms if_False)
  }
qed

text \<open>
  The wrapping brush, for a radius of at most \<open>cols\<close> and \<open>rows\<close>: every offset is normalised
  to the coordinates modulo the dimensions, and that cell is painted.
\<close>

lemma brush_wrap_within_grid:
  assumes len: "length grid = cols * rows"
    and c: "0 \<le> x" "x < int cols" "0 \<le> y" "y < int rows"
    and r: "max 0 ((sz - 1) div 2) \<le> int cols" "max 0 ((sz - 1) div 2) \<le> int rows"
    and d: "\<bar>dx\<bar> \<le> max 0 ((sz - 1) div 2)" "\<bar>dy\<bar> \<le> max 0 ((sz - 1) div 2)"
  shows "normalizeCoord (x + dx) cols True = Some (Num ((x + dx) mod int cols))"
    and "normalizeCoord (y + dy) rows True = Some (Num ((y + dy) mod int rows))"
    and "applyBrush grid cols rows x y sz alive True
           ! nat (((y + dy) mod int rows) * int cols + (x + dx) mod int cols)
         = (if alive then 1 else 0)"
proof -
  let ?r = "max 0 ((sz - 1) div 2)"
  have pos: "0 < cols" "0 < rows" using c by auto
  have nx: "0 \<le> x + dx + int cols" using c(1) r(1) d(1) by linarith
  have ny: "0 \<le> y + dy + int rows" using c(3) r(2) d(2) by linarith
  show "normalizeCoord (x + dx) cols True = Some (Num ((x + dx) mod int cols))"
    unfolding normalizeCoord_def using js_rem_wrap[OF nx pos(1)] by simp
  show "normalizeCoord (y + dy) rows True = Some (Num ((y + dy) mod int rows))"
    unfolding normalizeCoord_def using js_rem_wrap[OF ny pos(2)] by simp
  have pc: "0 < int cols" and pr: "0 < int rows" using pos by simp_all
  obtain k where k: "((y + dy) mod int rows) * int cols + (x + dx) mod int cols = int k"
      "k < cols * rows" "nat (((y + dy) mod int rows) * int cols + (x + dx) mod int cols) = k"
    using int_index[OF pos_mod_sign[OF pc] pos_mod_bound[OF pc] pos_mod_sign[OF pr] pos_mod_bound[OF pr]] .
  have "writeTarget cols rows True (x + dx) (y + dy) = Some (Num (int k))"
    unfolding writeTarget_wrap[OF nx ny pos] k(1) ..
  then have "\<exists>dx dy. \<bar>dx\<bar> \<le> ?r \<and> \<bar>dy\<bar> \<le> ?r
        \<and> writeTarget cols rows True (x + dx) (y + dy) = Some (Num (int k))"
    using d by blast
  then show "applyBrush grid cols rows x y sz alive True
           ! nat (((y + dy) mod int rows) * int cols + (x + dx) mod int cols)
         = (if alive then 1 else 0)"
    unfolding k(3) applyBrush_nth(2) using k(2) len by simp
qed

lemma js_rem_in_range: "0 \<le> v \<Longrightarrow> v < int m \<Longrightarrow> js_rem (v + int m) (int m) = Num v"
  using js_rem_wrap[of v m] by (cases "m = 0") simp_all

lemma normalizeCoord_in_range:
  "0 \<le> v \<Longrightarrow> v < int m \<Longrightarrow> normalizeCoord v m wrap = Some (Num v)"
  by (simp add: normalizeCoord_def js_rem_in_range)

text \<open>
  A brush of size at most 2 has radius 0 and is the single write at the normalised centre, or
  no write when the centre is rejected. For a centre inside the grid, and for a wrapped centre
  no further than one grid width and height below zero, that is the update of the centre cell
  alone.
\<close>

lemma brush_small_size:
  assumes "sz \<le> 2"
  shows "max 0 ((sz - 1) div 2) = 0
       \<and> applyBrush grid cols rows x y sz alive wrap
           = (case writeTarget cols rows wrap x y of
                Some j \<Rightarrow> setAt grid j (if alive then 1 else 0)
              | None \<Rightarrow> grid)
       \<and> (length grid = cols * rows \<and> 0 \<le> x \<and> x < int cols \<and> 0 \<le> y \<and> y < int rows
            \<longrightarrow> applyBrush grid cols rows x y sz alive wrap
                = grid[nat (y * int cols + x) := (if alive then 1 else 0)])
       \<and> (wrap \<and> length grid = cols * rows \<and> 0 < cols \<and> 0 < rows
              \<and> - int cols \<le> x \<and> - int rows \<le> y
            \<longrightarrow> applyBrush grid cols rows x y sz alive wrap
                = grid[nat ((y mod int rows) * int cols + x mod int cols)
                         := (if alive then 1 else 0)])"
proof -
  have r: "max 0 ((sz - 1) div 2) = 0" using assms by simp
  have one: "[- (0::int)..0] = [0]" by (simp add: upto.simps)
  have eq: "applyBrush grid cols rows x y sz alive wrap
           = (case writeTarget cols rows wrap x y of
                Some j \<Rightarrow> setAt grid j (if alive then 1 else 0)
              | None \<Rightarrow> grid)"
    unfolding applyBrush_paint r one by simp
  have inr: "applyBrush grid cols rows x y sz alive wrap
                = grid[nat (y * int cols + x) := (if alive then 1 else 0)]"
    if h: "length grid = cols * rows" "0 \<le> x" "x < int cols" "0 \<le> y" "y < int rows"
  proof -
    obtain k where k: "y * int cols + x = int k" "k < cols * rows" "nat (y * int cols + x) = k"
      using int_index[OF h(2-5)] .
    have t: "writeTarget cols rows wrap x y = Some (Num (int k))"
      unfolding writeTarget_def normalizeCoord_in_range[OF h(2,3)] normalizeCoord_in_range[OF h(4,5)]
      using k(1) by (simp add: indexOf_def)
    show ?thesis unfolding eq t k(3) option.case setAt_nat using k(2) h(1) by simp
  qed
  have wrp: "applyBrush grid cols rows x y sz alive wrap
                = grid[nat ((y mod int rows) * int cols + x mod int cols)
                         := (if alive then 1 else 0)]"
    if h: "wrap" "length grid = cols * rows" "0 < cols" "0 < rows"
      "- int cols \<le> x" "- int rows \<le> y"
  proof -
    have nx: "0 \<le> x + int cols" and ny: "0 \<le> y + int rows" using h(5,6) by simp_all
    have pc: "0 < int cols" and pr: "0 < int rows" using h(3,4) by simp_all
    obtain k where k: "(y mod int rows) * int cols + x mod int cols = int k" "k < cols * rows"
        "nat ((y mod int rows) * int cols + x mod int cols) = k"
      using int_index[OF pos_mod_sign[OF pc] pos_mod_bound[OF pc] pos_mod_sign[OF pr]
          pos_mod_bound[OF pr]] .
    have t: "writeTarget cols rows wrap x y = Some (Num (int k))"
      using writeTarget_wrap[OF nx ny h(3,4)] h(1) unfolding k(1) by simp
    show ?thesis unfolding eq t k(3) option.case setAt_nat using k(2) h(2) by simp
  qed
  from r eq inr wrp show ?thesis by blast
qed

lemma brush_small_size_example:
  "(0::int) \<le> 2 \<and> length [0, 0, 0, 0, 0, 0 :: u8] = 3 * 2
   \<and> (0::int) \<le> 2 \<and> (2::int) < int 3 \<and> (0::int) \<le> 1 \<and> (1::int) < int 2
   \<and> (0::nat) < 3 \<and> (0::nat) < 2 \<and> - int 3 \<le> 2 \<and> - int 2 \<le> 1
   \<and> applyBrush [0, 0, 0, 0, 0, 0] 3 2 2 1 0 True True = [0, 0, 0, 0, 0, 1]"
proof -
  have h: "(0::int) \<le> 2" by simp
  show ?thesis using brush_small_size[OF h, of "[0, 0, 0, 0, 0, 0]" 3 2 2 1 True True]
    by (simp add: writeTarget_def normalizeCoord_def indexOf_def js_rem_def)
qed

text \<open>
  Claim C10 at a wrapped centre further than one grid width below zero: on the 3 by 2 torus a
  brush of size 1 has radius 0, but the centre column \<open>-4\<close> is normalised to \<open>-1\<close>, outside
  the grid. At centre \<open>(-4, 1)\<close> the erasing brush clears index 2, the cell \<open>(2, 0)\<close>, and leaves
  the wrapped centre \<open>((-4) mod 3, 1 mod 2)\<close>, index 5, alive; at centre \<open>(-4, 0)\<close> the
  drawing brush writes at index \<open>-1\<close>, which is no cell, and the grid is unchanged.
\<close>

theorem brush_small_size_far_centre:
  "max 0 (((1::int) - 1) div 2) = 0
   \<and> normalizeCoord (- 4) 3 True = Some (Num (- 1))
   \<and> writeTarget 3 2 True (- 4) 1 = Some (Num 2)
   \<and> indexOf (Num ((- 4) mod 3)) (Num (1 mod 2)) 3 = Num 5
   \<and> applyBrush [1, 1, 1, 1, 1, 1] 3 2 (- 4) 1 1 False True = [1, 1, 0, 1, 1, 1]
   \<and> writeTarget 3 2 True (- 4) 0 = Some (Num (- 1))
   \<and> applyBrush [0, 0, 0, 0, 0, 0] 3 2 (- 4) 0 1 True True = [0, 0, 0, 0, 0, 0]"
  by code_simp

text \<open>
  Claim C5 at a brush wider than the grid: on the 2 by 10 torus, centre \<open>(0, 5)\<close>, size 7,
  the offset \<open>(-3, -3)\<close> is normalised to the column \<open>-1\<close>, outside the grid, and is written
  at index 3, the cell \<open>(1, 1)\<close>, where the claim has it at \<open>((0-3) mod 2, (5-3) mod 10)\<close>,
  index 5. Row 1 is outside the rows 2 to 8 that the square covers.
\<close>

theorem brush_oversize_wrap:
  "normalizeCoord (0 + (- 3)) 2 True = Some (Num (- 1))
   \<and> writeTarget 2 10 True (0 + (- 3)) (5 + (- 3)) = Some (Num 3)
   \<and> indexOf (Num ((0 + (- 3)) mod 2)) (Num ((5 + (- 3)) mod 10)) 2 = Num 5
   \<and> applyBrush (createGrid 2 10) 2 10 0 5 7 True True
       = [0, 0, 0, 1, 1, 1, 1, 1, 1, 1, 1, 1, 1, 1, 1, 1, 1, 1, 0, 0]"
  by code_simp

section \<open>Wrapping at the corner\<close>

lemma corner_live:
  assumes len: "length grid = N * N" and one: "grid ! (N * N - 1) = 1"
    and zero: "\<forall>i < N * N - 1. grid ! i = 0"
    and a: "0 \<le> a" "a < int N" and b: "0 \<le> b" "b < int N"
  shows "liveAt grid N a b = (a = int N - 1 \<and> b = int N - 1)"
proof -
  obtain a' where a': "a = int a'" "a' < N" using coord_nat[OF a] .
  obtain b' where b': "b = int b'" "b' < N" using coord_nat[OF b] .
  have n: "nat (b * int N + a) = b' * N + a'" unfolding a'(1) b'(1) by (rule nat_index)
  have lt: "b' * N + a' < N * N" using idx_lt[OF a'(2) b'(2)] .
  have pos: "0 < N" using a'(2) by simp
  have corner: "(N - 1) * N + (N - 1) = N * N - 1"
    using pos by (cases N) (simp_all add: algebra_simps)
  have N1: "N - 1 < N" using pos by simp
  have "(b' * N + a' = N * N - 1) = (a' = N - 1 \<and> b' = N - 1)"
    using idx_inj[OF a'(2) N1, of b' "N - 1"] unfolding corner by auto
  moreover have "(grid ! (b' * N + a') = 1) = (b' * N + a' = N * N - 1)"
  proof (cases "b' * N + a' = N * N - 1")
    case True
    then show ?thesis using one by simp
  next
    case False
    then have "b' * N + a' < N * N - 1" using lt by simp
    then have "grid ! (b' * N + a') = 0" using zero by simp
    then show ?thesis using False by simp
  qed
  moreover have "(a = int N - 1 \<and> b = int N - 1) = (a' = N - 1 \<and> b' = N - 1)"
    unfolding a'(1) b'(1) using pos by auto
  ultimately show ?thesis unfolding liveAt_def n by simp
qed

lemma corner_binary:
  assumes len: "length grid = N * N" and one: "grid ! (N * N - 1) = 1"
    and zero: "\<forall>i < N * N - 1. grid ! i = 0"
  shows "set grid \<subseteq> {0, 1}"
proof
  fix v assume "v \<in> set grid"
  then obtain i where i: "i < length grid" "grid ! i = v" by (auto simp: in_set_conv_nth)
  show "v \<in> {0, 1}"
  proof (cases "i = N * N - 1")
    case True
    then show ?thesis using one i by simp
  next
    case False
    then have "i < N * N - 1" using i(1) len by simp
    then show ?thesis using zero i by auto
  qed
qed

lemma corner_mods:
  assumes "0 < N"
  shows "((- 1) mod int N = int N - 1)"
    and "((0::int) mod int N = int N - 1) = (N = 1)"
    and "((1::int) mod int N = int N - 1) = (N = 1 \<or> N = 2)"
proof -
  show "(- 1) mod int N = int N - 1" using assms by (simp add: zmod_minus1)
  show "((0::int) mod int N = int N - 1) = (N = 1)" using assms by auto
  show "((1::int) mod int N = int N - 1) = (N = 1 \<or> N = 2)"
  proof (cases "N = 1")
    case True
    then show ?thesis by simp
  next
    case False
    then have "1 < int N" using assms by simp
    then have "(1::int) mod int N = 1" by simp
    then show ?thesis using False by auto
  qed
qed

text \<open>
  Claim C4 fails as stated for \<open>N = 2\<close>: on the bounded 2 by 2 grid the cell \<open>(1, 1)\<close> is an
  ordinary diagonal neighbour of \<open>(0, 0)\<close>, so it is counted with wrapping disabled.
\<close>

theorem wrap_corner_counterexample:
  "length [0, 0, 0, 1 :: u8] = 2 * 2
   \<and> getAt [0, 0, 0, 1] (indexOf (Num 1) (Num 1) 2) = Some 1
   \<and> getAt [0, 0, 0, 1] (Num 0) = Some 0 \<and> getAt [0, 0, 0, 1] (Num 1) = Some 0
   \<and> getAt [0, 0, 0, 1] (Num 2) = Some 0
   \<and> getNeighborCount [0, 0, 0, 1] 0 0 2 2 False = Num 1"
  by (simp add: getNeighborCount_def indexOf_def)

text \<open>
  Claim C4, amended. On an \<open>N\<close> by \<open>N\<close> grid whose only live cell is \<open>(N-1, N-1)\<close>, the
  neighbour count of \<open>(0, 0)\<close> on the torus is positive (8 for \<open>N = 1\<close>, 4 for \<open>N = 2\<close>,
  1 otherwise); on the bounded grid it is 0, except for \<open>N = 2\<close> where it is 1.
\<close>

theorem wrap_corner:
  assumes "0 < N" and "length grid = N * N" and "grid ! (N * N - 1) = 1"
    and "\<forall>i < N * N - 1. grid ! i = 0"
  shows "getNeighborCount grid 0 0 N N True = Num (if N = 1 then 8 else if N = 2 then 4 else 1)
       \<and> getNeighborCount grid 0 0 N N False = Num (if N = 2 then 1 else 0)"
proof -
  have N: "(0::int) \<le> 0" "(0::int) < int N" using assms(1) by simp_all
  note bin = corner_binary[OF assms(2,3,4)]
  have cnt: "getNeighborCount grid 0 0 N N w = Num (int (live_neighbors grid 0 0 N N w))" for w
    using getNeighborCount_eq[OF assms(2) bin N N] .
  have pw: "moore_neighbor_live grid 0 0 N N True (dx, dy)
      = (dx mod int N = int N - 1 \<and> dy mod int N = int N - 1)" for dx dy
    unfolding moore_neighbor_live_def using N(2)
    by (simp add: corner_live[OF assms(2,3,4)] del: of_nat_0_less_iff)
  have pb: "moore_neighbor_live grid 0 0 N N False (dx, dy)
      = (0 \<le> dx \<and> 0 \<le> dy \<and> dx = int N - 1 \<and> dy = int N - 1)" for dx dy
    unfolding moore_neighbor_live_def using corner_live[OF assms(2,3,4), of dx dy]
    by auto
  have w: "int (live_neighbors grid 0 0 N N True) = (if N = 1 then 8 else if N = 2 then 4 else 1)"
    unfolding live_neighbors_def moore_offsets_def count_filter_Cons pw corner_mods[OF assms(1)]
    by auto
  have b: "int (live_neighbors grid 0 0 N N False) = (if N = 2 then 1 else 0)"
    unfolding live_neighbors_def moore_offsets_def count_filter_Cons pb
    by auto
  show ?thesis unfolding cnt w b by simp
qed

theorem wrap_corner_witness:
  "(0::nat) < 3 \<and> length [0, 0, 0, 0, 0, 0, 0, 0, 1 :: u8] = 3 * 3
   \<and> [0, 0, 0, 0, 0, 0, 0, 0, 1 :: u8] ! (3 * 3 - 1) = 1
   \<and> [0, 0, 0, 0, 0, 0, 0, 0, 1 :: u8] ! 0 = 0 \<and> [0, 0, 0, 0, 0, 0, 0, 0, 1 :: u8] ! 7 = 0
   \<and> getNeighborCount [0, 0, 0, 0, 0, 0, 0, 0, 1] 0 0 3 3 True = Num 1
   \<and> getNeighborCount [0, 0, 0, 0, 0, 0, 0, 0, 1] 0 0 3 3 False = Num 0"
proof -
  have h1: "(0::nat) < 3" by simp
  have h2: "length [0, 0, 0, 0, 0, 0, 0, 0, 1 :: u8] = 3 * 3" by simp
  have h3: "[0, 0, 0, 0, 0, 0, 0, 0, 1 :: u8] ! (3 * 3 - 1) = 1" by simp
  have h4: "\<forall>i < 3 * 3 - 1. [0, 0, 0, 0, 0, 0, 0, 0, 1 :: u8] ! i = 0"
  proof (intro allI impI)
    fix i :: nat assume "i < 3 * 3 - 1"
    then have "i \<in> {0, 1, 2, 3, 4, 5, 6, 7}" by auto
    then show "[0, 0, 0, 0, 0, 0, 0, 0, 1 :: u8] ! i = 0" by auto
  qed
  show ?thesis using wrap_corner[OF h1 h2 h3 h4] by simp
qed

end
